theory Spec2Isabelle
  imports Main "HOL-Library.Word" "HOL-Library.Char_ord" "HOL-Library.List_Lexorder"
    "HOL-Library.Multiset"
begin

unbundle bit_operations_syntax

section \<open>Bytes and the masked checksum\<close>

text \<open>
  A Python \<open>bytes\<close> object is a list of 8-bit values. Python integers are unbounded,
  so the arithmetic of \<open>_u32\<close> and \<open>_masked_crc32c\<close> is done on \<open>int\<close>, with the
  masks of the source written out.
\<close>

type_synonym byte = "8 word"
type_synonym bytes = "byte list"

text \<open>
  Modelled from the spec: the function \<open>crc32\<close> of the external package \<open>crc32c\<close>,
  which the source imports and which is not part of the repository. It is the CRC32C
  (Castagnoli) checksum in its usual bit-reflected form: register preset to all ones,
  one shift per input bit with the reflected polynomial \<open>0x82F63B78\<close>, final
  complement. The result is an integer in the range of an unsigned 32-bit number.
\<close>

definition crc32c_shift :: "32 word \<Rightarrow> 32 word" where
  "crc32c_shift c = (if bit c 0 then drop_bit 1 c XOR 0x82F63B78 else drop_bit 1 c)"

definition crc32c_update :: "32 word \<Rightarrow> byte \<Rightarrow> 32 word" where
  "crc32c_update c b = (crc32c_shift ^^ 8) (c XOR ucast b)"

definition crc32c_word :: "bytes \<Rightarrow> 32 word" where
  "crc32c_word data = NOT (foldl crc32c_update (NOT 0) data)"

definition crc32c :: "bytes \<Rightarrow> int" where
  "crc32c data = uint (crc32c_word data)"

text \<open>\<open>_u32\<close>: \<^verbatim>\<open>x & 0xffffffff\<close>.\<close>

definition u32 :: "int \<Rightarrow> int" where
  "u32 x = x AND 0xffffffff"

text \<open>
  \<open>_masked_crc32c\<close>:
  \<^verbatim>\<open>x = _u32(crc32c(data)); return _u32(((x >> 15) | _u32(x << 17)) + 0xa282ead8)\<close>
\<close>

definition masked_crc32c :: "bytes \<Rightarrow> int" where
  "masked_crc32c data =
     (let x = u32 (crc32c data)
      in u32 ((drop_bit 15 x OR u32 (push_bit 17 x)) + 0xa282ead8))"

section \<open>The struct module\<close>

text \<open>
  \<open>struct.unpack('Q', b)\<close> and \<open>struct.unpack('I', b)\<close> read 8 and 4 bytes as one
  unsigned integer. The source uses the native byte order; the format and every platform
  the package targets are little-endian, and so is the model. \<open>pack_le n x\<close> is the
  writer's side (\<open>struct.pack\<close>) for an \<open>n\<close>-byte field: the repository only reads,
  so it is used to state what a well-formed record is.
\<close>

fun unpack_le :: "bytes \<Rightarrow> int" where
  "unpack_le [] = 0"
| "unpack_le (b # bs) = uint b + 256 * unpack_le bs"

fun pack_le :: "nat \<Rightarrow> int \<Rightarrow> bytes" where
  "pack_le 0 x = []"
| "pack_le (Suc n) x = word_of_int (x mod 256) # pack_le n (x div 256)"

section \<open>Errors and the byte stream\<close>

text \<open>
  Every exception the source can raise is a value. \<open>EventReadingError\<close> is one class
  in the source; its three messages are kept apart: a short read, a checksum that does
  not match (with the stored and the computed value, as in the message), and the end of
  the file where a payload is due. \<open>TypeError\<close> is what \<open>struct.unpack\<close> raises when
  it is handed \<open>None\<close>; \<open>DecodeError\<close> is protobuf's, \<open>ValueError\<close> the constructor's,
  \<open>KeyError\<close> a missing dictionary key, \<open>CodecError\<close> an exception of the image codec.
\<close>

datatype reading_error =
    Size_less_than_requested
  | Invalid_checksum int int
  | Unexpected_end

datatype error =
    NotImplementedError
  | EventReadingError reading_error
  | TypeError
  | DecodeError
  | ValueError
  | KeyError
  | CodecError

text \<open>
  The \<open>BinaryIO\<close> object: the bytes not yet read, and whether the stream is in
  non-blocking mode. \<open>read(size)\<close> returns at most \<open>size\<close> bytes and advances; a
  non-blocking stream with nothing to deliver returns \<open>None\<close>.
\<close>

record binary_io =
  pending :: bytes
  non_blocking :: bool

definition file_read :: "binary_io \<Rightarrow> nat \<Rightarrow> bytes option \<times> binary_io" where
  "file_read f sz =
     (if non_blocking f \<and> pending f = [] then (None, f)
      else (Some (take sz (pending f)), f\<lparr>pending := drop sz (pending f)\<rparr>))"

text \<open>What \<open>open(path, 'rb')\<close> gives for a regular file: a blocking stream.\<close>

definition open_rb :: "bytes \<Rightarrow> binary_io" where
  "open_rb content = \<lparr>pending = content, non_blocking = False\<rparr>"

section \<open>EventsFileReader\<close>

text \<open>\<open>EventsFileReader._read\<close>.\<close>

definition EventsFileReader_read ::
  "binary_io \<Rightarrow> nat \<Rightarrow> (error + bytes option) \<times> binary_io" where
  "EventsFileReader_read f sz =
     (case file_read f sz of
        (None, f') \<Rightarrow> (Inl NotImplementedError, f')
      | (Some d, f') \<Rightarrow>
          if 0 < length d \<and> length d < sz
          then (Inl (EventReadingError Size_less_than_requested), f')
          else if length d = 0 then (Inr None, f')
          else (Inr (Some d), f'))"

text \<open>
  \<open>EventsFileReader._read_and_check\<close>. The checksum is read with \<open>_read\<close> too, whose
  \<open>None\<close> goes to \<open>struct.unpack\<close> unchecked.
\<close>

definition EventsFileReader_read_and_check ::
  "binary_io \<Rightarrow> nat \<Rightarrow> (error + bytes option) \<times> binary_io" where
  "EventsFileReader_read_and_check f sz =
     (case EventsFileReader_read f sz of
        (Inl e, f1) \<Rightarrow> (Inl e, f1)
      | (Inr None, f1) \<Rightarrow> (Inr None, f1)
      | (Inr (Some d), f1) \<Rightarrow>
          (case EventsFileReader_read f1 4 of
             (Inl e, f2) \<Rightarrow> (Inl e, f2)
           | (Inr None, f2) \<Rightarrow> (Inl TypeError, f2)
           | (Inr (Some c), f2) \<Rightarrow>
               (let checksum = unpack_le c;
                    checksum_computed = masked_crc32c d
                in if checksum \<noteq> checksum_computed
                   then (Inl (EventReadingError
                                (Invalid_checksum checksum checksum_computed)), f2)
                   else (Inr (Some d), f2))))"

text \<open>
  \<open>EventsFileReader.__iter__\<close>. The generator is modelled by what its consumer sees:
  the events yielded, in order, and how the iteration ends (\<open>None\<close>: exhausted,
  \<open>Some e\<close>: the exception \<open>e\<close>). \<open>ParseFromString\<close> is protobuf's parser, a
  parameter: \<open>None\<close> stands for its \<open>DecodeError\<close>.
\<close>

function EventsFileReader_iter ::
  "(bytes \<Rightarrow> 'ev option) \<Rightarrow> binary_io \<Rightarrow> 'ev list \<times> error option" where
  "EventsFileReader_iter ParseFromString f =
     (case EventsFileReader_read_and_check f 8 of
        (Inl e, f1) \<Rightarrow> ([], Some e)
      | (Inr None, f1) \<Rightarrow> ([], None)
      | (Inr (Some header), f1) \<Rightarrow>
          (case EventsFileReader_read_and_check f1 (nat (unpack_le header)) of
             (Inl e, f2) \<Rightarrow> ([], Some e)
           | (Inr None, f2) \<Rightarrow> ([], Some (EventReadingError Unexpected_end))
           | (Inr (Some event_raw), f2) \<Rightarrow>
               (case ParseFromString event_raw of
                  None \<Rightarrow> ([], Some DecodeError)
                | Some event \<Rightarrow>
                    (case EventsFileReader_iter ParseFromString f2 of
                       (events, r) \<Rightarrow> (event # events, r)))))"
  by pat_completeness auto
termination
proof (relation "measure (\<lambda>(p, f). length (pending f))")
  show "wf (measure (\<lambda>(p, f). length (pending f)))"
    by simp
next
  fix ParseFromString :: "bytes \<Rightarrow> 'ev option"
  fix f y ya :: binary_io and x xa b ba x2 x2a and x2b :: 'ev
  assume h1: "(x, y) = EventsFileReader_read_and_check f 8"
    and h2: "(xa, ya) = EventsFileReader_read_and_check y (nat (unpack_le x2))"
    and h3: "xa = Inr ba" "ba = Some x2a"
  have le: "length (pending g') \<le> length (pending g)"
    if "EventsFileReader_read g n = (r, g')" for g g' n r
    using that
    by (auto simp: EventsFileReader_read_def file_read_def split: if_splits)
  have lt: "length (pending g') < length (pending g)"
    if "EventsFileReader_read g n = (Inr (Some d), g')" for g g' n d
    using that
    by (auto simp: EventsFileReader_read_def file_read_def split: if_splits)
  have le2: "length (pending g') \<le> length (pending g)"
    if c: "EventsFileReader_read_and_check g n = (r, g')" for g g' n r
  proof (cases "EventsFileReader_read g n")
    case (Pair r1 g1)
    note p1 = this
    show ?thesis
    proof (cases "EventsFileReader_read g1 4")
      case (Pair r2 g2)
      have "length (pending g2) \<le> length (pending g)"
        using le [OF p1] le [OF Pair] by simp
      then show ?thesis
        using c p1 Pair le [OF p1]
        by (auto simp: EventsFileReader_read_and_check_def Let_def
            split: sum.splits option.splits if_splits)
    qed
  qed
  have lt2: "length (pending g') < length (pending g)"
    if c: "EventsFileReader_read_and_check g n = (Inr (Some d), g')" for g g' n d
  proof (cases "EventsFileReader_read g n")
    case (Pair r1 g1)
    note p1 = this
    show ?thesis
    proof (cases "EventsFileReader_read g1 4")
      case (Pair r2 g2)
      have "r1 = Inr (Some d) \<Longrightarrow> length (pending g2) < length (pending g)"
        using lt [of g n d g1] p1 le [OF Pair] by simp
      then show ?thesis
        using c p1 Pair
        by (auto simp: EventsFileReader_read_and_check_def Let_def
            split: sum.splits option.splits if_splits)
    qed
  qed
  have "length (pending ya) < length (pending y)"
    using lt2 [of y "nat (unpack_le x2)" x2a ya] h2 h3 by simp
  moreover have "length (pending y) \<le> length (pending f)"
    using le2 [of f 8 x y] h1 by simp
  ultimately show "((ParseFromString, ya), (ParseFromString, f))
      \<in> measure (\<lambda>(p, f). length (pending f))"
    by simp
qed

declare EventsFileReader_iter.simps [simp del]

text \<open>
  The on-disk record as the format describes it (the repository has no writer): the
  8-byte little-endian length, the masked checksum of those 8 bytes, the payload, and the
  masked checksum of the payload, each checksum as 4 little-endian bytes.
\<close>

definition encode_record :: "bytes \<Rightarrow> bytes" where
  "encode_record payload =
     (let header = pack_le 8 (int (length payload))
      in header @ pack_le 4 (masked_crc32c header)
           @ payload @ pack_le 4 (masked_crc32c payload))"

text \<open>
  A stored byte string with one bit flipped: bit \<open>k\<close> of the byte at position \<open>i\<close>.
\<close>

definition flip_bit_at :: "bytes \<Rightarrow> nat \<Rightarrow> nat \<Rightarrow> bytes" where
  "flip_bit_at bs i k = bs[i := bs ! i XOR push_bit k 1]"

section \<open>Events, values and decoders\<close>

text \<open>
  What the source reads of protobuf's \<open>Event\<close> and \<open>Summary.Value\<close>. A value carries
  a tag and at most one member of its \<open>oneof\<close>: \<open>simple_value\<close>, \<open>image\<close> (of which
  only \<open>encoded_image_string\<close> is read) or another kind (histogram, audio, tensor, or
  nothing set). \<open>summary\<close> is \<open>None\<close> when \<open>HasField('summary')\<close> is false. Floats
  are a type parameter \<open>'f\<close>, decoded images (numpy arrays) a type parameter \<open>'i\<close>.
\<close>

datatype 'f value_oneof = Simple_value 'f | Image bytes | Other_kind

record 'f summary_value =
  tag :: string
  oneof :: "'f value_oneof"

record 'f event =
  wall_time :: 'f
  step :: int
  summary :: "'f summary_value list option"

text \<open>What a decoder returns when it returns something: a scalar or a pixel buffer.\<close>

datatype ('f, 'i) decoded = Scalar 'f | Pixels 'i

text \<open>\<open>SummaryItem\<close>, the named tuple.\<close>

record ('f, 'i) summary_item =
  item_tag :: string
  item_step :: int
  item_wall_time :: 'f
  item_value :: "('f, 'i) decoded"
  item_type :: string

text \<open>
  \<open>cv2.imdecode\<close> is a parameter of type \<open>codec\<close>: \<open>Inr (Some img)\<close> for a decoded
  image, \<open>Inr None\<close> when it returns \<open>None\<close> (its answer for data it cannot decode),
  \<open>Inl e\<close> when it raises.
\<close>

type_synonym 'i codec = "bytes \<Rightarrow> error + 'i option"

type_synonym ('f, 'i) decoder = "'f summary_value \<Rightarrow> error + ('f, 'i) decoded option"

text \<open>\<open>_get_scalar\<close> and \<open>_get_image\<close>.\<close>

definition get_scalar :: "('f, 'i) decoder" where
  "get_scalar v = (case oneof v of Simple_value x \<Rightarrow> Inr (Some (Scalar x)) | _ \<Rightarrow> Inr None)"

definition get_image :: "'i codec \<Rightarrow> ('f, 'i) decoder" where
  "get_image imdecode v =
     (case oneof v of
        Image encoded_image \<Rightarrow>
          (case imdecode encoded_image of
             Inl e \<Rightarrow> Inl e
           | Inr None \<Rightarrow> Inr None
           | Inr (Some data) \<Rightarrow> Inr (Some (Pixels data)))
      | _ \<Rightarrow> Inr None)"

section \<open>SummaryReader\<close>

text \<open>
  \<open>SummaryReader._DECODERS\<close>, a dictionary in insertion order. A Python \<open>set\<close> is a
  list without duplicates: membership does not depend on the order, and iteration
  follows some order of the elements, here that of the list.
\<close>

definition DECODERS :: "'i codec \<Rightarrow> (string \<times> ('f, 'i) decoder) list" where
  "DECODERS imdecode = [(''scalar'', get_scalar), (''image'', get_image imdecode)]"

definition DECODERS_keys :: "string list" where
  "DECODERS_keys = [''scalar'', ''image'']"

record summary_reader =
  logdir :: string
  tag_filter :: "string list option"
  type_filter :: "string list option"

text \<open>\<open>SummaryReader._check_type_names\<close>: \<open>None\<close> is a normal return.\<close>

definition check_type_names :: "summary_reader \<Rightarrow> error option" where
  "check_type_names self =
     (case type_filter self of
        None \<Rightarrow> None
      | Some ts \<Rightarrow>
          if \<not> list_all (\<lambda>type_name. type_name \<in> set DECODERS_keys) ts
          then Some ValueError else None)"

text \<open>\<open>SummaryReader.__init__\<close>: only the arguments are read.\<close>

definition SummaryReader_init ::
  "string \<Rightarrow> string list option \<Rightarrow> string list option \<Rightarrow> error + summary_reader" where
  "SummaryReader_init dir tags types =
     (let self = \<lparr>logdir = dir,
                   tag_filter = map_option remdups tags,
                   type_filter = map_option remdups types\<rparr>
      in case check_type_names self of Some e \<Rightarrow> Inl e | None \<Rightarrow> Inr self)"

text \<open>
  \<open>SummaryReader._decode_events\<close>. \<open>try_decoders\<close> is the inner \<open>for ... else\<close> over
  \<open>type_list\<close> for one value: the first decoder with a result gives the item (\<open>break\<close>),
  and \<open>None\<close> is yielded when the loop runs out. \<open>decode_values\<close> is the loop over the
  values of one event, \<open>decode_events\<close> the loop over the events. Each returns what was
  yielded and how the generator ended; \<open>r\<close> is how the iteration over the events ends
  once they are all consumed.
\<close>

fun try_decoders ::
  "'i codec \<Rightarrow> string list \<Rightarrow> 'f event \<Rightarrow> 'f summary_value
     \<Rightarrow> error + ('f, 'i) summary_item option" where
  "try_decoders imdecode [] ev v = Inr None"
| "try_decoders imdecode (value_type # rest) ev v =
     (case map_of (DECODERS imdecode) value_type of
        None \<Rightarrow> Inl KeyError
      | Some decoder \<Rightarrow>
          (case decoder v of
             Inl e \<Rightarrow> Inl e
           | Inr None \<Rightarrow> try_decoders imdecode rest ev v
           | Inr (Some data) \<Rightarrow>
               Inr (Some \<lparr>item_tag = tag v, item_step = step ev,
                          item_wall_time = wall_time ev, item_value = data,
                          item_type = value_type\<rparr>)))"

fun decode_values ::
  "'i codec \<Rightarrow> string list \<Rightarrow> 'f event \<Rightarrow> 'f summary_value list
     \<Rightarrow> ('f, 'i) summary_item option list \<times> error option" where
  "decode_values imdecode type_list ev [] = ([], None)"
| "decode_values imdecode type_list ev (v # vs) =
     (case try_decoders imdecode type_list ev v of
        Inl e \<Rightarrow> ([], Some e)
      | Inr y \<Rightarrow>
          (case decode_values imdecode type_list ev vs of
             (ys, r) \<Rightarrow> (y # ys, r)))"

definition type_list_of :: "summary_reader \<Rightarrow> string list" where
  "type_list_of self =
     (case type_filter self of Some ts \<Rightarrow> ts | None \<Rightarrow> DECODERS_keys)"

fun decode_events_loop ::
  "'i codec \<Rightarrow> string list \<Rightarrow> 'f event list \<Rightarrow> error option
     \<Rightarrow> ('f, 'i) summary_item option list \<times> error option" where
  "decode_events_loop imdecode type_list [] r = ([], r)"
| "decode_events_loop imdecode type_list (ev # events) r =
     (let no_summary = (case summary ev of None \<Rightarrow> [None] | Some _ \<Rightarrow> []);
          vals = (case summary ev of None \<Rightarrow> [] | Some vs \<Rightarrow> vs)
      in case decode_values imdecode type_list ev vals of
           (ys, Some e) \<Rightarrow> (no_summary @ ys, Some e)
         | (ys, None) \<Rightarrow>
             (case decode_events_loop imdecode type_list events r of
                (zs, r') \<Rightarrow> (no_summary @ ys @ zs, r')))"

definition decode_events ::
  "'i codec \<Rightarrow> summary_reader \<Rightarrow> 'f event list \<times> error option
     \<Rightarrow> ('f, 'i) summary_item option list \<times> error option" where
  "decode_events imdecode self events =
     decode_events_loop imdecode (type_list_of self) (fst events) (snd events)"

text \<open>\<open>SummaryReader._check_tag\<close> and \<open>SummaryReader._check_type\<close>.\<close>

definition check_tag :: "summary_reader \<Rightarrow> string \<Rightarrow> bool" where
  "check_tag self t = (case tag_filter self of None \<Rightarrow> True | Some ts \<Rightarrow> t \<in> set ts)"

definition check_type :: "summary_reader \<Rightarrow> string \<Rightarrow> bool" where
  "check_type self event_type =
     (case type_filter self of None \<Rightarrow> True | Some ts \<Rightarrow> event_type \<in> set ts)"

text \<open>
  The log directory. An entry of a directory is a regular file, with its modification
  time and its content, or a subdirectory with entries of its own. \<open>glob('*')\<close> lists
  the entries of the directory itself, in the order the file system enumerates them.
\<close>

datatype node = File nat bytes | Directory "(string \<times> node) list"

fun is_file :: "node \<Rightarrow> bool" where
  "is_file (File mtime content) = True"
| "is_file (Directory entries) = False"

fun file_content :: "node \<Rightarrow> bytes" where
  "file_content (File mtime content) = content"
| "file_content (Directory entries) = []"

text \<open>\<open>sorted(f for f in self._logdir.glob('*') if f.is_file())\<close>: paths below one
  directory compare as their names do.\<close>

definition log_files :: "(string \<times> node) list \<Rightarrow> (string \<times> node) list" where
  "log_files entries = sort_key fst (filter (\<lambda>f. is_file (snd f)) entries)"

text \<open>
  The body of the loop over the files of \<open>SummaryReader.__iter__\<close>: the generator
  expression over \<open>_decode_events(reader)\<close>, for one file.
\<close>

definition file_items ::
  "(bytes \<Rightarrow> 'f event option) \<Rightarrow> 'i codec \<Rightarrow> summary_reader \<Rightarrow> bytes
     \<Rightarrow> ('f, 'i) summary_item list \<times> error option" where
  "file_items ParseFromString imdecode self content =
     (case decode_events imdecode self
             (EventsFileReader_iter ParseFromString (open_rb content)) of
        (ys, r) \<Rightarrow>
          (filter (\<lambda>item. check_tag self (item_tag item) \<and> check_type self (item_type item))
             (concat (map (\<lambda>y. case y of None \<Rightarrow> [] | Some item \<Rightarrow> [item]) ys)), r))"

fun iter_files ::
  "(bytes \<Rightarrow> 'f event option) \<Rightarrow> 'i codec \<Rightarrow> summary_reader \<Rightarrow> (string \<times> node) list
     \<Rightarrow> ('f, 'i) summary_item list \<times> error option" where
  "iter_files ParseFromString imdecode self [] = ([], None)"
| "iter_files ParseFromString imdecode self (file_path # rest) =
     (case file_items ParseFromString imdecode self (file_content (snd file_path)) of
        (items, Some e) \<Rightarrow> (items, Some e)
      | (items, None) \<Rightarrow>
          (case iter_files ParseFromString imdecode self rest of
             (later, r) \<Rightarrow> (items @ later, r)))"

text \<open>\<open>SummaryReader.__iter__\<close>: the items yielded, and how the iteration ends.\<close>

definition SummaryReader_iter ::
  "(bytes \<Rightarrow> 'f event option) \<Rightarrow> 'i codec \<Rightarrow> summary_reader \<Rightarrow> (string \<times> node) list
     \<Rightarrow> ('f, 'i) summary_item list \<times> error option" where
  "SummaryReader_iter ParseFromString imdecode self entries =
     iter_files ParseFromString imdecode self (log_files entries)"

text \<open>
  Two collaborators for concrete runs: a codec that cannot decode its input (it returns
  \<open>None\<close>, as \<open>cv2.imdecode\<close> does for such data), and a parser that gives one fixed
  event for every payload.
\<close>

definition codec_cannot_decode :: "nat codec" where
  "codec_cannot_decode encoded_image = Inr None"

definition parse_to :: "'f event \<Rightarrow> bytes \<Rightarrow> 'f event option" where
  "parse_to ev payload = Some ev"

section \<open>Properties of the checksum\<close>

lemma u32_mod: "u32 x = x mod 2 ^ 32"
proof -
  have "(0xffffffff :: int) = mask 32"
    by (simp add: mask_eq_exp_minus_1)
  then have "u32 x = take_bit 32 x"
    by (simp add: u32_def take_bit_eq_mask)
  then show ?thesis
    by (simp add: take_bit_eq_mod)
qed

lemma crc32c_range: "0 \<le> crc32c data \<and> crc32c data < 2 ^ 32"
proof -
  have "uint (w :: 32 word) < 2 ^ 32" for w
    using uint_bounded [of w] by simp
  then show ?thesis
    by (simp add: crc32c_def)
qed

lemma u32_crc32c: "u32 (crc32c data) = crc32c data"
  using crc32c_range [of data] by (simp add: u32_mod)

lemma rot_mod:
  assumes "0 \<le> x" "x < 2 ^ 32"
  shows "drop_bit 15 x OR u32 (push_bit 17 x)
    = (drop_bit 15 x OR push_bit 17 (x::int)) mod 2 ^ 32"
proof -
  have d: "take_bit 32 (drop_bit 15 x) = drop_bit 15 x"
  proof (rule take_bit_int_eq_self)
    show "0 \<le> drop_bit 15 x" using assms by simp
    have "drop_bit 15 x \<le> x" using assms by (simp add: drop_bit_eq_div)
    then show "drop_bit 15 x < 2 ^ 32" using assms by linarith
  qed
  have "(drop_bit 15 x OR push_bit 17 x) mod 2 ^ 32
      = take_bit 32 (drop_bit 15 x OR push_bit 17 x)"
    by (simp add: take_bit_eq_mod)
  also have "\<dots> = take_bit 32 (drop_bit 15 x) OR take_bit 32 (push_bit 17 x)"
    by (simp only: take_bit_or)
  also have "\<dots> = drop_bit 15 x OR take_bit 32 (push_bit 17 x)"
    by (simp only: d)
  also have "\<dots> = drop_bit 15 x OR u32 (push_bit 17 x)"
    by (simp only: u32_mod take_bit_eq_mod)
  finally show ?thesis by simp
qed

lemma masked_crc32c_eq:
  "masked_crc32c b =
     ((drop_bit 15 (crc32c b) OR push_bit 17 (crc32c b)) mod 2 ^ 32 + 0xa282ead8) mod 2 ^ 32"
proof -
  have "masked_crc32c b
      = ((drop_bit 15 (crc32c b) OR u32 (push_bit 17 (crc32c b))) + 0xa282ead8) mod 2 ^ 32"
    by (simp only: masked_crc32c_def Let_def u32_crc32c u32_mod [of "_ + _"])
  then show ?thesis
    using rot_mod [of "crc32c b"] crc32c_range [of b] by simp
qed

lemma masked_crc32c_range: "0 \<le> masked_crc32c b \<and> masked_crc32c b < 2 ^ 32"
  by (simp add: masked_crc32c_eq)

lemma crc32c_Nil: "crc32c [] = 0"
  by (simp add: crc32c_def crc32c_word_def)

text \<open>
  The model of the library function meets the published check value of CRC32C: the
  checksum of the ASCII digits \<open>123456789\<close> is \<open>0xE3069283\<close>.
\<close>

lemma crc32c_shift_8: "(crc32c_shift ^^ 8) c =
  crc32c_shift (crc32c_shift (crc32c_shift (crc32c_shift
    (crc32c_shift (crc32c_shift (crc32c_shift (crc32c_shift c)))))))"
  by (simp add: numeral_eq_Suc)

lemma crc32c_check_value:
  "crc32c [0x31, 0x32, 0x33, 0x34, 0x35, 0x36, 0x37, 0x38, 0x39] = 0xE3069283"
  by (simp add: crc32c_def crc32c_word_def crc32c_update_def crc32c_shift_8 crc32c_shift_def)

lemma crc32c_a: "crc32c [0x61] = 0xC1D04330"
  by (simp add: crc32c_def crc32c_word_def crc32c_update_def crc32c_shift_8 crc32c_shift_def)

lemma crc32c_abc: "crc32c [0x61, 0x62, 0x63] = 0x364B3FB7"
  by (simp add: crc32c_def crc32c_word_def crc32c_update_def crc32c_shift_8 crc32c_shift_def)

subsection \<open>A changed byte changes the checksum\<close>

lemma xor_right_cancel: "(a :: 'a::len word) XOR c = b XOR c \<Longrightarrow> a = b"
proof -
  assume e: "a XOR c = b XOR c"
  have "a = (a XOR c) XOR c" by (simp add: xor.assoc)
  also have "\<dots> = (b XOR c) XOR c" using e by simp
  also have "\<dots> = b" by (simp add: xor.assoc)
  finally show ?thesis .
qed

lemma xor_left_cancel: "(c :: 'a::len word) XOR a = c XOR b \<Longrightarrow> a = b"
  using xor_right_cancel [of a c b] by (simp add: xor.commute)

lemma crc32c_shift_top: "bit (crc32c_shift c) 31 = bit c 0"
proof -
  have "\<not> bit c 32"
    using bit_imp_le_length [of c 32] by auto
  then show ?thesis
    by (simp add: crc32c_shift_def bit_xor_iff bit_drop_bit_eq)
qed

lemma crc32c_shift_inj: "crc32c_shift a = crc32c_shift b \<Longrightarrow> a = b"
proof -
  assume e: "crc32c_shift a = crc32c_shift b"
  then have b0: "bit a 0 = bit b 0"
    using crc32c_shift_top [of a] crc32c_shift_top [of b] by simp
  with e have d: "drop_bit 1 a = drop_bit 1 b"
    by (auto simp: crc32c_shift_def split: if_splits dest: xor_right_cancel)
  show "a = b"
  proof (rule bit_eqI)
    fix n
    show "bit a n = bit b n"
    proof (cases n)
      case 0
      then show ?thesis using b0 by simp
    next
      case (Suc m)
      have "bit (drop_bit 1 a) m = bit (drop_bit 1 b) m" using d by simp
      then show ?thesis using Suc by (simp add: bit_drop_bit_eq)
    qed
  qed
qed

lemma crc32c_update_inj:
  "crc32c_update c b = crc32c_update c' b' \<Longrightarrow> c XOR ucast b = c' XOR ucast b'"
proof -
  have "inj crc32c_shift"
    by (rule injI) (rule crc32c_shift_inj)
  then have "inj (crc32c_shift ^^ 8)"
    by (rule inj_fn)
  then show "crc32c_update c b = crc32c_update c' b' \<Longrightarrow> c XOR ucast b = c' XOR ucast b'"
    by (simp add: crc32c_update_def inj_def)
qed

lemma ucast_byte_inj: "(ucast (b :: byte) :: 32 word) = ucast b' \<Longrightarrow> b = b'"
proof (rule bit_eqI)
  fix n
  assume e: "(ucast b :: 32 word) = ucast b'" and "possible_bit TYPE(byte) n"
  then have n: "n < 8" by (simp add: possible_bit_word)
  have "bit (ucast b :: 32 word) n = bit (ucast b' :: 32 word) n"
    using e by simp
  then show "bit b n = bit b' n"
    using n by (simp add: bit_ucast_iff)
qed

lemma foldl_crc32c_update_inj:
  "foldl crc32c_update s bs = foldl crc32c_update s' bs \<Longrightarrow> s = s'"
proof (induction bs arbitrary: s s')
  case Nil
  then show ?case by simp
next
  case (Cons b bs)
  then have "crc32c_update s b = crc32c_update s' b" by simp
  then have "s XOR ucast b = s' XOR ucast b" by (rule crc32c_update_inj)
  then show ?case by (rule xor_right_cancel)
qed

lemma crc32c_word_differs:
  assumes "b \<noteq> b'"
  shows "crc32c_word (pre @ b # suf) \<noteq> crc32c_word (pre @ b' # suf)"
proof
  assume "crc32c_word (pre @ b # suf) = crc32c_word (pre @ b' # suf)"
  then have "foldl crc32c_update (crc32c_update (foldl crc32c_update (NOT 0) pre) b) suf
      = foldl crc32c_update (crc32c_update (foldl crc32c_update (NOT 0) pre) b') suf"
    by (simp add: crc32c_word_def)
  then have "crc32c_update (foldl crc32c_update (NOT 0) pre) b
      = crc32c_update (foldl crc32c_update (NOT 0) pre) b'"
    by (rule foldl_crc32c_update_inj)
  then have "foldl crc32c_update (NOT 0) pre XOR ucast b
      = foldl crc32c_update (NOT 0) pre XOR ucast b'"
    by (rule crc32c_update_inj)
  then have "(ucast b :: 32 word) = ucast b'"
    by (rule xor_left_cancel)
  then show False using assms ucast_byte_inj by blast
qed


lemma rot_uint:
  fixes w :: "32 word"
  shows "(drop_bit 15 (uint w) OR push_bit 17 (uint w)) mod 2 ^ 32 = uint (word_rotr 15 w)"
proof -
  have "take_bit 32 (drop_bit 15 (uint w) OR push_bit 17 (uint w)) = uint (word_rotr 15 w)"
  proof (rule bit_eqI)
    fix n
    have hi: "\<not> bit w k" if "32 \<le> k" for k
      using bit_imp_le_length [of w k] that by auto
    show "bit (take_bit 32 (drop_bit 15 (uint w) OR push_bit 17 (uint w))) n
        = bit (uint (word_rotr 15 w)) n"
    proof (cases "n < 17")
      case True
      then have "(n + 15) mod 32 = n + 15" by simp
      then show ?thesis
        using True
        by (simp add: bit_take_bit_iff bit_or_iff bit_drop_bit_eq bit_push_bit_iff
            bit_uint_iff bit_word_rotr_iff add.commute)
    next
      case False
      show ?thesis
      proof (cases "n < 32")
        case True
        have m: "(n + 15) mod 32 = n - 17"
          using False True by (simp add: mod_if)
        have "\<not> bit w (15 + n)" using False by (intro hi) simp
        moreover have "n - 17 < LENGTH(32)" using True by simp
        ultimately show ?thesis
          using True False m
          by (simp only: bit_take_bit_iff bit_or_iff bit_drop_bit_eq bit_push_bit_iff
              bit_uint_iff bit_word_rotr_iff add.commute [of 15 n] comp_def)
            (simp add: add.commute)
      next
        case False
        then show ?thesis
          by (simp add: bit_take_bit_iff bit_or_iff bit_uint_iff bit_word_rotr_iff)
      qed
    qed
  qed
  then show ?thesis
    by (simp add: take_bit_eq_mod)
qed

lemma crc32c_eq_word: "crc32c d = uint (crc32c_word d)"
  by (simp add: crc32c_def)

lemma masked_crc32c_word:
  "masked_crc32c d = uint (word_rotr 15 (crc32c_word d) + 0xa282ead8)"
proof -
  have "uint (word_rotr 15 (crc32c_word d) + 0xa282ead8)
      = (uint (word_rotr 15 (crc32c_word d)) + uint (0xa282ead8 :: 32 word)) mod 2 ^ 32"
    by (simp only: uint_word_ariths) simp
  also have "uint (0xa282ead8 :: 32 word) = 0xa282ead8"
    by simp
  finally show ?thesis
    by (simp only: masked_crc32c_eq crc32c_eq_word rot_uint)
qed

lemma masked_crc32c_differs:
  assumes "b \<noteq> b'"
  shows "masked_crc32c (pre @ b # suf) \<noteq> masked_crc32c (pre @ b' # suf)"
proof
  assume "masked_crc32c (pre @ b # suf) = masked_crc32c (pre @ b' # suf)"
  then have "word_rotr 15 (crc32c_word (pre @ b # suf)) + (0xa282ead8 :: 32 word)
      = word_rotr 15 (crc32c_word (pre @ b' # suf)) + 0xa282ead8"
    by (simp only: masked_crc32c_word word_uint_eq_iff)
  then have "word_rotr 15 (crc32c_word (pre @ b # suf))
      = word_rotr 15 (crc32c_word (pre @ b' # suf))"
    by simp
  then have "word_rotl 15 (word_rotr 15 (crc32c_word (pre @ b # suf)))
      = word_rotl 15 (word_rotr 15 (crc32c_word (pre @ b' # suf)))"
    by simp
  then have "crc32c_word (pre @ b # suf) = crc32c_word (pre @ b' # suf)"
    by (simp only: word_rot_rl)
  then show False
    using crc32c_word_differs [OF assms] by blast
qed

section \<open>Properties of the framing\<close>

lemma length_pack_le: "length (pack_le n x) = n"
  by (induction n arbitrary: x) auto

lemma unpack_pack_le: "0 \<le> x \<Longrightarrow> x < 256 ^ n \<Longrightarrow> unpack_le (pack_le n x) = x"
proof (induction n arbitrary: x)
  case 0
  then show ?case by simp
next
  case (Suc n)
  have b: "uint (word_of_int (x mod 256) :: byte) = x mod 256"
    by (simp add: uint_word_of_int take_bit_eq_mod)
  have "x div 256 < 256 ^ n"
    using Suc.prems by (simp add: div_less_iff_less_mult)
  moreover have "0 \<le> x div 256" using Suc.prems by simp
  ultimately have "unpack_le (pack_le n (x div 256)) = x div 256"
    using Suc.IH by blast
  then show ?case using b by simp
qed

lemma unpack_pack_checksum: "unpack_le (pack_le 4 (masked_crc32c d)) = masked_crc32c d"
  using masked_crc32c_range [of d] by (intro unpack_pack_le) auto

lemma read_blocking:
  "EventsFileReader_read (open_rb bs) n =
     (if 0 < length bs \<and> length bs < n
      then Inl (EventReadingError Size_less_than_requested)
      else if bs = [] \<or> n = 0 then Inr None else Inr (Some (take n bs)), open_rb (drop n bs))"
  by (auto simp: EventsFileReader_read_def file_read_def open_rb_def)


lemma read_and_check_stored:
  assumes "d \<noteq> []" "0 \<le> c" "c < 2 ^ 32"
  shows "EventsFileReader_read_and_check (open_rb (d @ pack_le 4 c @ rest)) (length d) =
     (if c \<noteq> masked_crc32c d
      then Inl (EventReadingError (Invalid_checksum c (masked_crc32c d)))
      else Inr (Some d), open_rb rest)"
proof -
  have r1: "EventsFileReader_read (open_rb (d @ pack_le 4 c @ rest)) (length d)
      = (Inr (Some d), open_rb (pack_le 4 c @ rest))"
    using assms(1) by (simp add: read_blocking)
  have "pack_le 4 c \<noteq> []"
    using length_pack_le [of 4 c] by auto
  then have r2: "EventsFileReader_read (open_rb (pack_le 4 c @ rest)) 4
      = (Inr (Some (pack_le 4 c)), open_rb rest)"
    by (simp add: read_blocking length_pack_le)
  have u: "unpack_le (pack_le 4 c) = c"
    using assms(2,3) by (intro unpack_pack_le) auto
  show ?thesis
    by (simp add: EventsFileReader_read_and_check_def r1 r2 u Let_def)
qed

lemma read_and_check_ok:
  assumes "d \<noteq> []"
  shows "EventsFileReader_read_and_check (open_rb (d @ pack_le 4 (masked_crc32c d) @ rest))
      (length d) = (Inr (Some d), open_rb rest)"
  using read_and_check_stored [OF assms, of "masked_crc32c d" rest] masked_crc32c_range [of d]
  by simp

lemma read_header_ok:
  assumes "n < 2 ^ 64"
  shows "EventsFileReader_read_and_check
      (open_rb (pack_le 8 (int n) @ pack_le 4 (masked_crc32c (pack_le 8 (int n))) @ rest)) 8
    = (Inr (Some (pack_le 8 (int n))), open_rb rest)
    \<and> nat (unpack_le (pack_le 8 (int n))) = n"
proof -
  have ne: "pack_le 8 (int n) \<noteq> []"
    using length_pack_le [of 8 "int n"] by auto
  have "int n < 256 ^ 8"
    using assms by (simp add: nat_less_iff [symmetric])
  then have "unpack_le (pack_le 8 (int n)) = int n"
    by (intro unpack_pack_le) auto
  then show ?thesis
    using read_and_check_ok [OF ne, of rest] by (simp add: length_pack_le)
qed

lemma iter_record:
  assumes "payload \<noteq> []" "length payload < 2 ^ 64"
  shows "EventsFileReader_iter parse (open_rb (encode_record payload @ rest)) =
     (case parse payload of
        None \<Rightarrow> ([], Some DecodeError)
      | Some ev \<Rightarrow> (case EventsFileReader_iter parse (open_rb rest) of
                     (evs, r) \<Rightarrow> (ev # evs, r)))"
proof -
  let ?h = "pack_le 8 (int (length payload))"
  have e: "encode_record payload @ rest
      = ?h @ pack_le 4 (masked_crc32c ?h) @ (payload @ pack_le 4 (masked_crc32c payload) @ rest)"
    by (simp add: encode_record_def Let_def)
  show ?thesis
    unfolding e
    by (subst EventsFileReader_iter.simps)
      (simp add: read_header_ok [OF assms(2)] read_and_check_ok [OF assms(1)])
qed

lemma iter_empty_payload:
  "EventsFileReader_iter parse (open_rb (encode_record [] @ rest))
     = ([], Some (EventReadingError Unexpected_end))"
proof -
  let ?h = "pack_le 8 (int 0)"
  have e: "encode_record [] @ rest
      = ?h @ pack_le 4 (masked_crc32c ?h) @ (pack_le 4 (masked_crc32c []) @ rest)"
    by (simp add: encode_record_def Let_def)
  have z: "EventsFileReader_read_and_check (open_rb bs) 0 = (Inr None, open_rb bs)" for bs
    by (simp add: EventsFileReader_read_and_check_def read_blocking)
  have h: "EventsFileReader_read_and_check
      (open_rb (?h @ pack_le 4 (masked_crc32c ?h) @ (pack_le 4 (masked_crc32c []) @ rest))) 8
    = (Inr (Some ?h), open_rb (pack_le 4 (masked_crc32c []) @ rest))
    \<and> nat (unpack_le ?h) = 0"
    by (rule read_header_ok) simp
  show ?thesis
    unfolding e
    by (subst EventsFileReader_iter.simps) (simp only: h z prod.case sum.case option.case)
qed

lemma iter_end:
  "EventsFileReader_iter parse (open_rb []) = ([], None)"
  by (subst EventsFileReader_iter.simps)
    (simp add: EventsFileReader_read_and_check_def read_blocking)

lemma iter_short_header:
  assumes "0 < length t" "length t < 8"
  shows "EventsFileReader_iter parse (open_rb t)
    = ([], Some (EventReadingError Size_less_than_requested))"
  using assms
  by (subst EventsFileReader_iter.simps)
    (simp add: EventsFileReader_read_and_check_def read_blocking)

lemma iter_header_only:
  assumes "length h = 8"
  shows "EventsFileReader_iter parse (open_rb h) = ([], Some TypeError)"
proof -
  have "h \<noteq> []" using assms by auto
  then show ?thesis
    using assms
    by (subst EventsFileReader_iter.simps)
      (simp add: EventsFileReader_read_and_check_def read_blocking)
qed

lemma iter_records:
  assumes "\<forall>p \<in> set ps. p \<noteq> [] \<and> length p < 2 ^ 64 \<and> parse p \<noteq> None"
  shows "EventsFileReader_iter parse (open_rb (concat (map encode_record ps) @ t)) =
     (map (the \<circ> parse) ps @ fst (EventsFileReader_iter parse (open_rb t)),
      snd (EventsFileReader_iter parse (open_rb t)))"
  using assms
proof (induction ps)
  case Nil
  then show ?case by simp
next
  case (Cons p ps)
  then have p: "p \<noteq> []" "length p < 2 ^ 64" and "parse p \<noteq> None"
    by simp_all
  then obtain ev where ev: "parse p = Some ev" by auto
  have "EventsFileReader_iter parse (open_rb (encode_record p @ (concat (map encode_record ps) @ t)))
      = (case EventsFileReader_iter parse (open_rb (concat (map encode_record ps) @ t)) of
           (evs, r) \<Rightarrow> (ev # evs, r))"
    by (simp add: iter_record [OF p] ev)
  then show ?case
    using Cons by (simp add: ev)
qed

lemma flip_bit_at_changes:
  assumes "i < length bs" "k < 8"
  shows "\<exists>pre b suf. bs = pre @ b # suf \<and> flip_bit_at bs i k = pre @ (b XOR push_bit k 1) # suf
      \<and> b XOR push_bit k 1 \<noteq> b \<and> length pre = i"
proof -
  have bs: "bs = take i bs @ bs ! i # drop (Suc i) bs"
    using assms(1) by (simp add: id_take_nth_drop)
  have f: "flip_bit_at bs i k = take i bs @ (bs ! i XOR push_bit k 1) # drop (Suc i) bs"
    using assms(1) by (simp add: flip_bit_at_def upd_conv_take_nth_drop)
  have "bit (push_bit k 1 :: byte) k"
    using assms(2) by (simp add: bit_push_bit_iff bit_exp_iff possible_bit_word flip: push_bit_of_1)
  then have "(push_bit k 1 :: byte) \<noteq> 0"
    using assms(2) by auto
  then have "bs ! i XOR push_bit k 1 \<noteq> bs ! i"
    using xor_left_cancel [of "bs ! i" "push_bit k 1" 0] by auto
  then show ?thesis
    using bs f assms(1) by (metis length_take min.absorb2 less_imp_le)
qed

lemma masked_crc32c_flip:
  assumes "i < length bs" "k < 8"
  shows "masked_crc32c (flip_bit_at bs i k) \<noteq> masked_crc32c bs"
proof -
  obtain pre b suf where "bs = pre @ b # suf"
    "flip_bit_at bs i k = pre @ (b XOR push_bit k 1) # suf" "b XOR push_bit k 1 \<noteq> b"
    using flip_bit_at_changes [OF assms] by blast
  then show ?thesis
    using masked_crc32c_differs [of "b XOR push_bit k 1" b pre suf] by simp
qed

lemma flip_bit_at_payload:
  assumes "i < length payload"
  shows "flip_bit_at (encode_record payload) (12 + i) k =
     pack_le 8 (int (length payload))
       @ pack_le 4 (masked_crc32c (pack_le 8 (int (length payload))))
       @ flip_bit_at payload i k @ pack_le 4 (masked_crc32c payload)"
  using assms
  by (simp add: flip_bit_at_def encode_record_def Let_def list_update_append nth_append
      length_pack_le)

lemma length_flip_bit_at: "length (flip_bit_at bs i k) = length bs"
  by (simp add: flip_bit_at_def)

lemma iter_flipped:
  assumes "i < length payload" "k < 8" "length payload < 2 ^ 64"
  shows "EventsFileReader_iter parse (open_rb (flip_bit_at (encode_record payload) (12 + i) k))
    = ([], Some (EventReadingError
         (Invalid_checksum (masked_crc32c payload) (masked_crc32c (flip_bit_at payload i k)))))"
proof -
  let ?fl = "flip_bit_at payload i k"
  let ?h = "pack_le 8 (int (length payload))"
  have ne: "?fl \<noteq> []"
    using assms(1) length_flip_bit_at [of payload i k] by auto
  have rc: "EventsFileReader_read_and_check
      (open_rb (?fl @ pack_le 4 (masked_crc32c payload) @ [])) (length ?fl)
    = (Inl (EventReadingError (Invalid_checksum (masked_crc32c payload) (masked_crc32c ?fl))),
       open_rb [])"
    using read_and_check_stored [OF ne, of "masked_crc32c payload" "[]"]
      masked_crc32c_range [of payload] masked_crc32c_flip [OF assms(1,2)]
    by auto
  have hd: "EventsFileReader_read_and_check
      (open_rb (?h @ pack_le 4 (masked_crc32c ?h) @ (?fl @ pack_le 4 (masked_crc32c payload)))) 8
    = (Inr (Some ?h), open_rb (?fl @ pack_le 4 (masked_crc32c payload)))
    \<and> nat (unpack_le ?h) = length payload"
    by (rule read_header_ok [OF assms(3)])
  show ?thesis
    unfolding flip_bit_at_payload [OF assms(1)]
    using rc
    by (subst EventsFileReader_iter.simps) (simp add: hd length_flip_bit_at)
qed

lemma iter_payload_checksum_missing:
  assumes "payload \<noteq> []" "length payload < 2 ^ 64"
  shows "EventsFileReader_iter parse
      (open_rb (pack_le 8 (int (length payload))
         @ pack_le 4 (masked_crc32c (pack_le 8 (int (length payload)))) @ payload))
    = ([], Some TypeError)"
proof -
  have "EventsFileReader_read_and_check (open_rb payload) (length payload)
      = (Inl TypeError, open_rb [])"
    using assms(1) by (simp add: EventsFileReader_read_and_check_def read_blocking)
  then show ?thesis
    by (subst EventsFileReader_iter.simps) (simp add: read_header_ok [OF assms(2)])
qed

lemma iter_single_record:
  assumes "payload \<noteq> []" "length payload < 2 ^ 64" "parse payload = Some ev"
  shows "EventsFileReader_iter parse (open_rb (encode_record payload)) = ([ev], None)"
  using iter_record [OF assms(1,2), of parse "[]"] assms(3)
  by (simp add: iter_end)


section \<open>Properties of the decoders and the reader\<close>

lemma DECODERS_keys_eq: "map fst (DECODERS imdecode) = DECODERS_keys"
  by (simp add: DECODERS_def DECODERS_keys_def)

lemma map_of_DECODERS:
  "map_of (DECODERS imdecode) t =
     (if t = ''scalar'' then Some get_scalar
      else if t = ''image'' then Some (get_image imdecode) else None)"
  by (simp add: DECODERS_def)

lemma SummaryReader_init_eq:
  "SummaryReader_init dir tags types =
     (if (case types of None \<Rightarrow> True | Some ts \<Rightarrow> set ts \<subseteq> {''scalar'', ''image''})
      then Inr \<lparr>logdir = dir, tag_filter = map_option remdups tags,
                type_filter = map_option remdups types\<rparr>
      else Inl ValueError)"
  by (cases types)
    (auto simp: SummaryReader_init_def check_type_names_def DECODERS_keys_def Let_def
      list_all_iff)

lemma try_decoders_Some:
  fixes v :: "'f summary_value" and imdecode :: "'i codec"
  assumes "try_decoders imdecode type_list ev v = Inr (Some item)"
  shows "item_tag item = tag v \<and> item_step item = step ev
    \<and> item_wall_time item = wall_time ev
    \<and> (\<exists>pre post decoder. type_list = pre @ item_type item # post
          \<and> map_of (DECODERS imdecode) (item_type item) = Some decoder
          \<and> decoder v = Inr (Some (item_value item))
          \<and> list_all (\<lambda>t. \<exists>d. map_of (DECODERS imdecode) t = Some d \<and> d v = Inr None) pre)"
  using assms
proof (induction type_list)
  case Nil
  then show ?case by simp
next
  case (Cons t ts)
  let ?D = "DECODERS imdecode :: (string \<times> ('f, 'i) decoder) list"
  have "map_of ?D t \<noteq> None"
  proof
    assume "map_of ?D t = None"
    then have "try_decoders imdecode (t # ts) ev v = Inl KeyError" by simp
    then show False using Cons.prems by simp
  qed
  then obtain decoder where d: "map_of ?D t = Some decoder"
    by blast
  show ?case
  proof (cases "decoder v")
    case (Inl e)
    then show ?thesis using Cons.prems d by simp
  next
    case (Inr r)
    show ?thesis
    proof (cases r)
      case None
      then have "try_decoders imdecode ts ev v = Inr (Some item)"
        using Cons.prems d Inr by simp
      from Cons.IH [OF this] obtain pre post dec where
        "item_tag item = tag v" "item_step item = step ev" "item_wall_time item = wall_time ev"
        "ts = pre @ item_type item # post"
        "map_of (DECODERS imdecode) (item_type item) = Some dec"
        "dec v = Inr (Some (item_value item))"
        "list_all (\<lambda>t. \<exists>d. map_of (DECODERS imdecode) t = Some d \<and> d v = Inr None) pre"
        by blast
      then have "t # ts = (t # pre) @ item_type item # post
          \<and> map_of (DECODERS imdecode) (item_type item) = Some dec
          \<and> dec v = Inr (Some (item_value item))
          \<and> list_all (\<lambda>t. \<exists>d. map_of (DECODERS imdecode) t = Some d \<and> d v = Inr None) (t # pre)"
        using d Inr None by simp
      then show ?thesis
        using \<open>item_tag item = tag v\<close> \<open>item_step item = step ev\<close>
          \<open>item_wall_time item = wall_time ev\<close> by blast
    next
      case (Some data)
      then have i: "item = \<lparr>item_tag = tag v, item_step = step ev,
          item_wall_time = wall_time ev, item_value = data, item_type = t\<rparr>"
        using Cons.prems d Inr by simp
      then have "t # ts = [] @ item_type item # ts
          \<and> map_of (DECODERS imdecode) (item_type item) = Some decoder
          \<and> decoder v = Inr (Some (item_value item))
          \<and> list_all (\<lambda>t. \<exists>d. map_of (DECODERS imdecode) t = Some d \<and> d v = Inr None) []"
        using d Inr Some by simp
      moreover have "item_tag item = tag v \<and> item_step item = step ev
          \<and> item_wall_time item = wall_time ev"
        using i by simp
      ultimately show ?thesis by blast
    qed
  qed
qed

lemma decode_values_yields:
  "length (fst (decode_values imdecode type_list ev vs)) \<le> length vs
   \<and> (snd (decode_values imdecode type_list ev vs) = None
        \<longrightarrow> length (fst (decode_values imdecode type_list ev vs)) = length vs)
   \<and> (\<forall>j < length (fst (decode_values imdecode type_list ev vs)).
         try_decoders imdecode type_list ev (vs ! j)
           = Inr (fst (decode_values imdecode type_list ev vs) ! j))"
proof (induction vs)
  case Nil
  then show ?case by simp
next
  case (Cons v vs)
  show ?case
  proof (cases "try_decoders imdecode type_list ev v")
    case (Inl e)
    then show ?thesis by simp
  next
    case (Inr y)
    obtain ys r where p: "decode_values imdecode type_list ev vs = (ys, r)"
      by (cases "decode_values imdecode type_list ev vs")
    then have "decode_values imdecode type_list ev (v # vs) = (y # ys, r)"
      using Inr by simp
    then show ?thesis
      using Cons p Inr by (auto simp: nth_Cons split: nat.splits)
  qed
qed

lemma iter_files_no_items:
  assumes "\<And>content. fst (file_items parse imdecode self content) = []"
  shows "fst (iter_files parse imdecode self fs) = []"
proof (induction fs)
  case Nil
  then show ?case by simp
next
  case (Cons f fs)
  obtain items r where p: "file_items parse imdecode self (file_content (snd f)) = (items, r)"
    by (cases "file_items parse imdecode self (file_content (snd f))")
  then have "items = []"
    using assms [of "file_content (snd f)"] by simp
  then show ?case
    using p Cons by (cases r) (auto split: prod.splits)
qed

lemma file_items_empty_tag_filter:
  assumes "tag_filter self = Some []"
  shows "fst (file_items parse imdecode self content) = []"
  using assms by (simp add: file_items_def check_tag_def split: prod.splits)

lemma decode_values_no_types:
  "decode_values imdecode [] ev vs = (replicate (length vs) None, None)"
  by (induction vs) auto

lemma decode_events_loop_no_types:
  "list_all (\<lambda>y. y = None) (fst (decode_events_loop imdecode [] events r))"
proof (induction events)
  case Nil
  then show ?case by simp
next
  case (Cons ev events)
  then show ?case
    by (cases "summary ev")
      (auto simp: decode_values_no_types Let_def list_all_iff split: prod.splits)
qed

lemma file_items_empty_type_filter:
  assumes "type_filter self = Some []"
  shows "fst (file_items parse imdecode self content) = []"
proof -
  have t: "type_list_of self = []"
    using assms by (simp add: type_list_of_def)
  have "list_all (\<lambda>y. y = None)
      (fst (decode_events imdecode self (EventsFileReader_iter parse (open_rb content))))"
    by (simp add: decode_events_def t decode_events_loop_no_types)
  then have "concat (map (\<lambda>y. case y of None \<Rightarrow> [] | Some item \<Rightarrow> [item])
      (fst (decode_events imdecode self (EventsFileReader_iter parse (open_rb content))))) = []"
    by (auto simp: list_all_iff)
  then show ?thesis
    by (simp add: file_items_def split: prod.splits)
qed

lemma try_decoders_undecodable:
  fixes v :: "'f summary_value" and imdecode :: "'i codec"
  assumes "oneof v = Image enc" "imdecode enc = Inr None"
    "set type_list \<subseteq> set DECODERS_keys"
  shows "try_decoders imdecode type_list ev v = Inr None"
  using assms(3)
proof (induction type_list)
  case Nil
  then show ?case by simp
next
  case (Cons t ts)
  then have "t = ''scalar'' \<or> t = ''image''"
    by (simp add: DECODERS_keys_def)
  then show ?case
    using Cons assms(1,2)
    by (auto simp: map_of_DECODERS get_scalar_def get_image_def)
qed

lemma try_decoders_codec_raises:
  fixes v :: "'f summary_value" and imdecode :: "'i codec"
  assumes "oneof v = Image enc" "imdecode enc = Inl e"
    "set type_list \<subseteq> set DECODERS_keys" "''image'' \<in> set type_list"
  shows "try_decoders imdecode type_list ev v = Inl e"
  using assms(3,4)
proof (induction type_list)
  case Nil
  then show ?case by simp
next
  case (Cons t ts)
  then have "t = ''scalar'' \<or> t = ''image''"
    by (simp add: DECODERS_keys_def)
  then show ?case
    using Cons assms(1,2)
    by (auto simp: map_of_DECODERS get_scalar_def get_image_def)
qed

lemma try_decoders_image_item:
  fixes v :: "'f summary_value" and imdecode :: "'i codec"
  assumes "oneof v = Image enc" "try_decoders imdecode type_list ev v = Inr (Some item)"
  shows "\<exists>img. imdecode enc = Inr (Some img) \<and> item_value item = Pixels img
    \<and> item_type item = ''image''"
proof -
  obtain decoder :: "('f, 'i) decoder" where
    d: "map_of (DECODERS imdecode) (item_type item) = Some decoder"
      "decoder v = Inr (Some (item_value item))"
    using try_decoders_Some [OF assms(2)] by blast
  then show ?thesis
    using assms(1)
    by (auto simp: map_of_DECODERS get_scalar_def get_image_def
        split: if_splits sum.splits option.splits)
qed

subsection \<open>The order of the files\<close>

lemma set_log_files: "set (log_files entries) = {f \<in> set entries. is_file (snd f)}"
  by (auto simp: log_files_def)

lemma sorted_log_files: "sorted (map fst (log_files entries))"
  by (simp add: log_files_def)

lemma distinct_log_files:
  assumes "distinct (map fst entries)"
  shows "distinct (map fst (log_files entries))"
proof -
  have "mset (map fst (log_files entries))
      = mset (map fst (filter (\<lambda>f. is_file (snd f)) entries))"
    by (simp add: log_files_def)
  moreover have "distinct (map fst (filter (\<lambda>f. is_file (snd f)) entries))"
    using assms by (rule distinct_map_filter)
  ultimately show ?thesis
    using mset_eq_imp_distinct_iff by blast
qed

lemma log_files_permutation:
  assumes "mset entries = mset entries'" "distinct (map fst entries)"
  shows "log_files entries = log_files entries'"
proof (rule map_sorted_distinct_set_unique [where f = fst])
  have s: "set entries = set entries'"
    using assms(1) by (rule mset_eq_setD)
  have "mset (map fst entries) = mset (map fst entries')"
    using assms(1) by (metis mset_map)
  then have d': "distinct (map fst entries')"
    using assms(2) mset_eq_imp_distinct_iff by blast
  show "inj_on fst (set (log_files entries) \<union> set (log_files entries'))"
    using assms(2) s by (auto simp: set_log_files distinct_map inj_on_def)
  show "sorted (map fst (log_files entries))" "sorted (map fst (log_files entries'))"
    by (rule sorted_log_files)+
  show "distinct (map fst (log_files entries))"
    using assms(2) by (rule distinct_log_files)
  show "distinct (map fst (log_files entries'))"
    using d' by (rule distinct_log_files)
  show "set (log_files entries) = set (log_files entries')"
    using s by (simp add: set_log_files)
qed

lemma iter_files_concat:
  "\<exists>k \<le> length fs.
     fst (iter_files parse imdecode self fs)
       = concat (map (\<lambda>f. fst (file_items parse imdecode self (file_content (snd f))))
           (take k fs))
     \<and> (snd (iter_files parse imdecode self fs) = None \<longrightarrow> k = length fs)"
proof (induction fs)
  case Nil
  then show ?case by simp
next
  case (Cons f fs)
  let ?g = "\<lambda>f. fst (file_items parse imdecode self (file_content (snd f)))"
  obtain items r where p: "file_items parse imdecode self (file_content (snd f)) = (items, r)"
    by (cases "file_items parse imdecode self (file_content (snd f))")
  have g: "?g f = items"
    using p by simp
  show ?case
  proof (cases r)
    case (Some e)
    have a: "iter_files parse imdecode self (f # fs) = (items, Some e)"
      using p Some by simp
    have c: "concat (map ?g (take 1 (f # fs))) = items"
      using g by simp
    have x1: "1 \<le> length (f # fs)"
      by simp
    have x2: "fst (iter_files parse imdecode self (f # fs)) = concat (map ?g (take 1 (f # fs)))"
      unfolding a c by simp
    have x3: "snd (iter_files parse imdecode self (f # fs)) = None \<longrightarrow> 1 = length (f # fs)"
      unfolding a by simp
    show ?thesis
      by (rule exI [of _ 1]) (intro conjI x1 x2 x3)
  next
    case None
    from Cons.IH obtain k where kk: "k \<le> length fs \<and>
      fst (iter_files parse imdecode self fs) = concat (map ?g (take k fs)) \<and>
      (snd (iter_files parse imdecode self fs) = None \<longrightarrow> k = length fs)"
      ..
    have k: "k \<le> length fs"
      "fst (iter_files parse imdecode self fs) = concat (map ?g (take k fs))"
      "snd (iter_files parse imdecode self fs) = None \<longrightarrow> k = length fs"
      using kk by (rule conjunct1, rule conjunct2 [THEN conjunct1], rule conjunct2 [THEN conjunct2])
    obtain later r' where q: "iter_files parse imdecode self fs = (later, r')"
      by (cases "iter_files parse imdecode self fs")
    have a: "iter_files parse imdecode self (f # fs) = (items @ later, r')"
      using p None q by simp
    have c: "concat (map ?g (take (Suc k) (f # fs))) = items @ later"
      using g k(2) q by simp
    have x1: "Suc k \<le> length (f # fs)"
      using k(1) by simp
    have x2: "fst (iter_files parse imdecode self (f # fs))
        = concat (map ?g (take (Suc k) (f # fs)))"
      unfolding a c by simp
    have x3: "snd (iter_files parse imdecode self (f # fs)) = None
        \<longrightarrow> Suc k = length (f # fs)"
      unfolding a using k(3) q by simp
    show ?thesis
      by (rule exI [of _ "Suc k"]) (intro conjI x1 x2 x3)
  qed
qed


lemma map_insort_key:
  assumes "\<And>y. f' (g y) = f y"
  shows "map g (insort_key f x xs) = insort_key f' (g x) (map g xs)"
  by (induction xs) (simp_all add: assms)

lemma map_sort_key:
  assumes "\<And>y. f' (g y) = f y"
  shows "map g (sort_key f xs) = sort_key f' (map g xs)"
  by (induction xs) (simp_all add: map_insort_key [of f' g f, OF assms])

lemma iter_files_content:
  assumes "map (\<lambda>f. file_content (snd f)) fs = map (\<lambda>f. file_content (snd f)) fs'"
  shows "iter_files parse imdecode self fs = iter_files parse imdecode self fs'"
  using assms
proof (induction fs arbitrary: fs')
  case Nil
  then show ?case by simp
next
  case (Cons f fs)
  then obtain f' fs'' where fs': "fs' = f' # fs''"
    by (cases fs') auto
  then have "file_content (snd f) = file_content (snd f')"
    and "map (\<lambda>f. file_content (snd f)) fs = map (\<lambda>f. file_content (snd f)) fs''"
    using Cons.prems by simp_all
  then show ?case
    using Cons.IH [of fs''] fs' by simp
qed

lemma log_files_visible:
  assumes "map (\<lambda>f. (fst f, if is_file (snd f) then Some (file_content (snd f)) else None))
      entries'
    = map (\<lambda>f. (fst f, if is_file (snd f) then Some (file_content (snd f)) else None))
      entries"
  shows "map (\<lambda>f. file_content (snd f)) (log_files entries')
    = map (\<lambda>f. file_content (snd f)) (log_files entries)"
proof -
  let ?V = "\<lambda>f :: string \<times> node.
    (fst f, if is_file (snd f) then Some (file_content (snd f)) else None)"
  have v: "map ?V (log_files d) = sort_key fst (filter (\<lambda>x. snd x \<noteq> None) (map ?V d))" for d
  proof -
    have "map ?V (log_files d) = sort_key fst (map ?V (filter (\<lambda>f. is_file (snd f)) d))"
      unfolding log_files_def by (rule map_sort_key) simp
    also have "map ?V (filter (\<lambda>f. is_file (snd f)) d)
        = filter (\<lambda>x. snd x \<noteq> None) (map ?V d)"
      by (simp add: filter_map comp_def)
    finally show ?thesis .
  qed
  have c: "map (\<lambda>f. file_content (snd f)) (log_files d)
      = map (\<lambda>x. the (snd x)) (map ?V (log_files d))" for d
    by (simp add: set_log_files)
  show ?thesis
    by (simp only: c v assms)
qed

section \<open>The claims on the checksum and the framing\<close>

text \<open>
  Claim C2. For every byte string \<open>b\<close>, the masked checksum is the CRC32C of \<open>b\<close>
  rotated (\<open>(x >> 15) | (x << 17)\<close>, reduced modulo \<open>2^32\<close>) plus the constant
  \<open>0xa282ead8\<close>, modulo \<open>2^32\<close>. The result depends on the bytes only (it is a function
  of \<open>b\<close>), and it is an unsigned 32-bit number.
\<close>

theorem masked_crc32c_formula:
  "masked_crc32c b =
     ((drop_bit 15 (crc32c b) OR push_bit 17 (crc32c b)) mod 2 ^ 32 + 0xa282ead8) mod 2 ^ 32
   \<and> 0 \<le> masked_crc32c b \<and> masked_crc32c b < 2 ^ 32"
  using masked_crc32c_eq [of b] masked_crc32c_range [of b] by simp

text \<open>The reference value for the empty buffer: the CRC is 0, so the mask leaves the constant.\<close>

theorem masked_crc32c_formula_witness: "masked_crc32c [] = 0xa282ead8"
  using masked_crc32c_formula [of "[]"] by (simp add: crc32c_Nil)

text \<open>
  The masked checksums of the reference inputs: the empty buffer, \<open>a\<close> and \<open>abc\<close>.
\<close>

theorem masked_crc32c_reference_values:
  "masked_crc32c [] = 0xa282ead8
   \<and> masked_crc32c [0x61] = 0x28e46e78
   \<and> masked_crc32c [0x61, 0x62, 0x63] = 0x21f1576e"
  by (simp add: masked_crc32c_def u32_def crc32c_Nil crc32c_a crc32c_abc)

text \<open>
  Claim C1, at the empty payload. The well-formed record of the empty payload (length 0,
  its checksum, no payload bytes, the checksum of the empty string) is not read back:
  \<open>_read(0)\<close> returns \<open>None\<close> as at the end of the file, the payload checksum is
  never read, and the iteration ends with \<open>EventReadingError('Unexpected end of events
  file')\<close>, whatever the parser is.
\<close>

theorem empty_payload_record_rejected:
  "EventsFileReader_iter parse (open_rb (encode_record []))
     = ([], Some (EventReadingError Unexpected_end))"
  using iter_empty_payload [of parse "[]"] by simp

text \<open>
  Round trip for a non-empty payload: the stream holding its one well-formed record
  yields exactly the event parsed from that payload and then ends with no error. With
  the parser that returns its input (\<open>Some\<close>), the item is the payload itself.
\<close>

theorem roundtrip_nonempty_payload:
  assumes "payload \<noteq> []" "length payload < 2 ^ 64" "parse payload = Some ev"
  shows "EventsFileReader_iter parse (open_rb (encode_record payload)) = ([ev], None)
    \<and> EventsFileReader_iter Some (open_rb (encode_record payload)) = ([payload], None)"
  using iter_record [OF assms(1,2), of parse "[]"] iter_record [OF assms(1,2), of Some "[]"]
    assms(3)
  by (simp add: iter_end)

theorem roundtrip_nonempty_payload_witness:
  "EventsFileReader_iter Some (open_rb (encode_record [1, 2, 3])) = ([[1, 2, 3]], None)"
  using roundtrip_nonempty_payload [of "[1, 2, 3]" Some "[1, 2, 3]"] by simp

text \<open>
  Claim C3. Take the well-formed record of a non-empty payload and flip one bit \<open>k\<close> of
  one stored payload byte \<open>i\<close> (the payload starts at offset 12). Reading the stream
  yields no event and ends with \<open>EventReadingError('Invalid checksum ...')\<close>, carrying
  the stored checksum (that of the original payload) and the computed one (that of the
  flipped payload). The result is the same for every parser: the payload is rejected
  before \<open>ParseFromString\<close> is reached.
\<close>

theorem payload_bit_flip_detected:
  assumes "i < length payload" "k < 8" "length payload < 2 ^ 64"
  shows "EventsFileReader_iter parse (open_rb (flip_bit_at (encode_record payload) (12 + i) k))
    = ([], Some (EventReadingError
         (Invalid_checksum (masked_crc32c payload) (masked_crc32c (flip_bit_at payload i k)))))
    \<and> masked_crc32c payload \<noteq> masked_crc32c (flip_bit_at payload i k)"
  using iter_flipped [OF assms, of parse] masked_crc32c_flip [OF assms(1,2)] by simp

theorem payload_bit_flip_detected_witness:
  "EventsFileReader_iter Some (open_rb (flip_bit_at (encode_record [1]) (12 + 0) 0))
    = ([], Some (EventReadingError
         (Invalid_checksum (masked_crc32c [1]) (masked_crc32c (flip_bit_at [1] 0 0)))))
    \<and> masked_crc32c [1] \<noteq> masked_crc32c (flip_bit_at [1] 0 0)"
  using payload_bit_flip_detected [of 0 "[1]" 0 Some] by simp

text \<open>
  Claim C4. At a record boundary, that is at the start of the stream or after any number
  of well-formed records (non-empty payloads that parse): if no byte is left, the
  iteration ends normally after the events of those records; if between 1 and 7 bytes
  are left, it yields the same events and then raises \<open>EventReadingError('The size of
  read data is less than requested size')\<close>.
\<close>

theorem header_truncation:
  assumes "\<forall>p \<in> set ps. p \<noteq> [] \<and> length p < 2 ^ 64 \<and> parse p \<noteq> None"
  shows "EventsFileReader_iter parse (open_rb (concat (map encode_record ps)))
      = (map (the \<circ> parse) ps, None)
    \<and> (0 < length t \<and> length t < 8 \<longrightarrow>
        EventsFileReader_iter parse (open_rb (concat (map encode_record ps) @ t))
          = (map (the \<circ> parse) ps, Some (EventReadingError Size_less_than_requested)))"
  using iter_records [OF assms, of "[]"] iter_records [OF assms, of t]
  by (auto simp: iter_end iter_short_header)

theorem header_truncation_witness:
  "EventsFileReader_iter Some (open_rb []) = ([], None)
   \<and> EventsFileReader_iter Some (open_rb [7, 7, 7])
       = ([], Some (EventReadingError Size_less_than_requested))
   \<and> EventsFileReader_iter Some (open_rb (concat (map encode_record [[1], [2, 3]])))
       = ([[1], [2, 3]], None)
   \<and> EventsFileReader_iter Some (open_rb (concat (map encode_record [[1], [2, 3]]) @ [7]))
       = ([[1], [2, 3]], Some (EventReadingError Size_less_than_requested))"
  using header_truncation [of "[]" Some "[7, 7, 7]"]
    header_truncation [of "[[1], [2, 3]]" Some "[7]"]
  by simp

text \<open>
  Claim C8, where it fails. A stream that ends right after the 8 bytes of a length
  header, where the 4-byte header checksum is due: \<open>_read(4)\<close> returns \<open>None\<close>, which
  \<open>struct.unpack\<close> rejects with a \<open>TypeError\<close>; the iteration ends with that exception,
  not with an \<open>EventReadingError\<close>.
\<close>

theorem checksum_missing_type_error:
  "EventsFileReader_iter parse (open_rb [5, 0, 0, 0, 0, 0, 0, 0]) = ([], Some TypeError)"
  using iter_header_only [of "[5, 0, 0, 0, 0, 0, 0, 0]" parse] by simp

section \<open>The claims on the summary reader\<close>

text \<open>
  Claim C6. Constructing the reader raises \<open>ValueError\<close> exactly when a type filter is
  given and holds a name outside \<open>scalar\<close>, \<open>image\<close>; with no type filter, or with
  one inside these two names, it returns the reader. The constructor reads its arguments
  only: no directory listing and no file content is among them, so it decides before
  any file is enumerated or opened.
\<close>

theorem type_filter_validation:
  "SummaryReader_init dir tags types =
     (if (case types of None \<Rightarrow> True | Some ts \<Rightarrow> set ts \<subseteq> {''scalar'', ''image''})
      then Inr \<lparr>logdir = dir, tag_filter = map_option remdups tags,
                type_filter = map_option remdups types\<rparr>
      else Inl ValueError)"
  by (rule SummaryReader_init_eq)

theorem type_filter_validation_witness:
  "SummaryReader_init ''logs'' None (Some [''audio'']) = Inl ValueError
   \<and> SummaryReader_init ''logs'' None (Some [''scalar'', ''audio'']) = Inl ValueError
   \<and> SummaryReader_init ''logs'' None None
       = Inr \<lparr>logdir = ''logs'', tag_filter = None, type_filter = None\<rparr>
   \<and> SummaryReader_init ''logs'' (Some [''loss'']) (Some [''image'', ''scalar'', ''image''])
       = Inr \<lparr>logdir = ''logs'', tag_filter = Some [''loss''],
              type_filter = Some [''scalar'', ''image'']\<rparr>"
  using type_filter_validation [of "''logs''" None "Some [''audio'']"]
    type_filter_validation [of "''logs''" None "Some [''scalar'', ''audio'']"]
    type_filter_validation [of "''logs''" None None]
    type_filter_validation [of "''logs''" "Some [''loss'']" "Some [''image'', ''scalar'', ''image'']"]
  by simp

text \<open>
  Claim C10. A reader constructed with the empty tag filter yields no item, for every
  directory, parser and codec. Construction with the empty type filter does not raise,
  and that reader yields no item either. The witness sets the absent filters beside
  them: the same directory then gives its item.
\<close>

theorem empty_filters_accept_nothing:
  "(SummaryReader_init dir (Some []) types = Inr self \<longrightarrow>
      tag_filter self = Some []
      \<and> fst (SummaryReader_iter parse imdecode self entries) = [])
   \<and> (\<exists>self'. SummaryReader_init dir tags (Some []) = Inr self'
        \<and> type_filter self' = Some []
        \<and> fst (SummaryReader_iter parse imdecode self' entries) = [])"
proof -
  have a: "fst (SummaryReader_iter parse imdecode self entries) = []"
    if "tag_filter self = Some []" for self
    unfolding SummaryReader_iter_def
    by (rule iter_files_no_items) (rule file_items_empty_tag_filter [OF that])
  have b: "fst (SummaryReader_iter parse imdecode self entries) = []"
    if "type_filter self = Some []" for self
    unfolding SummaryReader_iter_def
    by (rule iter_files_no_items) (rule file_items_empty_type_filter [OF that])
  have "SummaryReader_init dir (Some []) types = Inr self \<Longrightarrow> tag_filter self = Some []"
    by (auto simp: SummaryReader_init_eq split: if_splits)
  moreover have "SummaryReader_init dir tags (Some [])
      = Inr \<lparr>logdir = dir, tag_filter = map_option remdups tags, type_filter = Some []\<rparr>"
    by (simp add: SummaryReader_init_eq)
  ultimately show ?thesis
    using a b by auto
qed

theorem empty_filters_accept_nothing_witness:
  "fst (SummaryReader_iter
          (\<lambda>payload. Some \<lparr>wall_time = 0 :: nat, step = 1,
             summary = Some [\<lparr>tag = ''loss'', oneof = Simple_value 5\<rparr>]\<rparr>)
          (\<lambda>enc. Inr (None :: nat option))
          \<lparr>logdir = ''logs'', tag_filter = Some [], type_filter = None\<rparr>
          [(''events'', File 0 (encode_record [1]))]) = []
   \<and> fst (SummaryReader_iter
          (\<lambda>payload. Some \<lparr>wall_time = 0 :: nat, step = 1,
             summary = Some [\<lparr>tag = ''loss'', oneof = Simple_value 5\<rparr>]\<rparr>)
          (\<lambda>enc. Inr (None :: nat option))
          \<lparr>logdir = ''logs'', tag_filter = None, type_filter = Some []\<rparr>
          [(''events'', File 0 (encode_record [1]))]) = []
   \<and> fst (SummaryReader_iter
          (\<lambda>payload. Some \<lparr>wall_time = 0 :: nat, step = 1,
             summary = Some [\<lparr>tag = ''loss'', oneof = Simple_value 5\<rparr>]\<rparr>)
          (\<lambda>enc. Inr (None :: nat option))
          \<lparr>logdir = ''logs'', tag_filter = None, type_filter = None\<rparr>
          [(''events'', File 0 (encode_record [1]))])
       = [\<lparr>item_tag = ''loss'', item_step = 1, item_wall_time = 0,
            item_value = Scalar 5, item_type = ''scalar''\<rparr>]"
proof -
  let ?P = "\<lambda>payload :: bytes. Some \<lparr>wall_time = 0 :: nat, step = 1,
             summary = Some [\<lparr>tag = ''loss'', oneof = Simple_value (5 :: nat)\<rparr>]\<rparr>"
  let ?C = "\<lambda>enc :: bytes. Inr (None :: nat option) :: error + nat option"
  let ?D = "[(''events'', File 0 (encode_record [1]))]"
  have i1: "SummaryReader_init ''logs'' (Some []) None
      = Inr \<lparr>logdir = ''logs'', tag_filter = Some [], type_filter = None\<rparr>"
    by (simp add: SummaryReader_init_eq)
  have i2: "SummaryReader_init ''logs'' None (Some [])
      = Inr \<lparr>logdir = ''logs'', tag_filter = None, type_filter = Some []\<rparr>"
    by (simp add: SummaryReader_init_eq)
  have ev: "EventsFileReader_iter ?P (open_rb (encode_record [1]))
      = ([\<lparr>wall_time = 0, step = 1,
            summary = Some [\<lparr>tag = ''loss'', oneof = Simple_value 5\<rparr>]\<rparr>], None)"
    by (rule iter_single_record) simp_all
  have c: "fst (SummaryReader_iter ?P ?C
      \<lparr>logdir = ''logs'', tag_filter = None, type_filter = None\<rparr> ?D)
    = [\<lparr>item_tag = ''loss'', item_step = 1, item_wall_time = 0,
            item_value = Scalar 5, item_type = ''scalar''\<rparr>]"
    by (simp add: SummaryReader_iter_def log_files_def file_items_def ev decode_events_def
        type_list_of_def DECODERS_keys_def map_of_DECODERS get_scalar_def check_tag_def
        check_type_def)
  show ?thesis
    using empty_filters_accept_nothing [of "''logs''" None
        "\<lparr>logdir = ''logs'', tag_filter = Some [], type_filter = None\<rparr>" ?P ?C ?D None]
      i1 i2 c
    by simp
qed

text \<open>
  Claim C5 as stated fails. An event with one image value whose bytes the codec cannot
  decode (\<open>cv2.imdecode\<close> returns \<open>None\<close>): \<open>_decode_events\<close> yields \<open>None\<close> for it
  and ends with no exception, and the reader over a file holding that event yields
  nothing and ends normally.
\<close>

theorem undecodable_image_dropped_counterexample:
  "decode_events codec_cannot_decode
      \<lparr>logdir = ''logs'', tag_filter = None, type_filter = None\<rparr>
      ([\<lparr>wall_time = 0 :: nat, step = 1,
          summary = Some [\<lparr>tag = ''img'', oneof = Image [1, 2, 3]\<rparr>]\<rparr>], None)
     = ([None], None)
   \<and> SummaryReader_iter
      (parse_to \<lparr>wall_time = 0 :: nat, step = 1,
          summary = Some [\<lparr>tag = ''img'', oneof = Image [1, 2, 3]\<rparr>]\<rparr>)
      codec_cannot_decode
      \<lparr>logdir = ''logs'', tag_filter = None, type_filter = None\<rparr>
      [(''events'', File 0 (encode_record [1]))]
     = ([], None)"
proof -
  let ?ev = "\<lparr>wall_time = 0 :: nat, step = 1,
          summary = Some [\<lparr>tag = ''img'', oneof = Image [1, 2, 3] :: nat value_oneof\<rparr>]\<rparr>"
  have ev: "EventsFileReader_iter (parse_to ?ev) (open_rb (encode_record [1])) = ([?ev], None)"
    by (rule iter_single_record) (simp_all add: parse_to_def)
  show ?thesis
    by (simp add: SummaryReader_iter_def log_files_def file_items_def ev decode_events_def
        type_list_of_def DECODERS_keys_def map_of_DECODERS get_scalar_def get_image_def
        codec_cannot_decode_def)
qed

text \<open>
  Claim C5 as amended. For a value carrying an encoded image, with a type selection
  inside \<open>scalar\<close>, \<open>image\<close>: when the codec returns no image, the value gives no item
  and no error; when the codec raises and \<open>image\<close> is selected, its exception
  propagates; and an item, when there is one, holds exactly the image the codec returned.
\<close>

theorem undecodable_image_dropped:
  fixes v :: "'f summary_value" and imdecode :: "'i codec"
  assumes "oneof v = Image enc" "set type_list \<subseteq> set DECODERS_keys"
  shows "(imdecode enc = Inr None \<longrightarrow> try_decoders imdecode type_list ev v = Inr None)
    \<and> (imdecode enc = Inl e \<and> ''image'' \<in> set type_list
          \<longrightarrow> try_decoders imdecode type_list ev v = Inl e)
    \<and> (\<forall>item. try_decoders imdecode type_list ev v = Inr (Some item)
          \<longrightarrow> (\<exists>img. imdecode enc = Inr (Some img) \<and> item_value item = Pixels img))"
  using try_decoders_undecodable [OF assms(1) _ assms(2), of imdecode ev]
    try_decoders_codec_raises [OF assms(1) _ assms(2), of imdecode e ev]
    try_decoders_image_item [OF assms(1), of imdecode type_list ev]
  by blast

theorem undecodable_image_dropped_witness:
  "try_decoders (\<lambda>enc. Inr (None :: nat option)) [''scalar'', ''image'']
      \<lparr>wall_time = 0 :: nat, step = 1, summary = None\<rparr>
      \<lparr>tag = ''img'', oneof = Image [1, 2, 3]\<rparr> = Inr None
   \<and> try_decoders (\<lambda>enc. Inl CodecError :: error + nat option) [''scalar'', ''image'']
      \<lparr>wall_time = 0 :: nat, step = 1, summary = None\<rparr>
      \<lparr>tag = ''img'', oneof = Image [1, 2, 3]\<rparr> = Inl CodecError"
  using undecodable_image_dropped [where v = "\<lparr>tag = ''img'', oneof = Image [1, 2, 3]\<rparr>"
      and enc = "[1, 2, 3]" and type_list = "[''scalar'', ''image'']"
      and imdecode = "\<lambda>enc. Inr (None :: nat option)" and e = CodecError
      and ev = "\<lparr>wall_time = 0 :: nat, step = 1, summary = None\<rparr>"]
    undecodable_image_dropped [where v = "\<lparr>tag = ''img'', oneof = Image [1, 2, 3]\<rparr>"
      and enc = "[1, 2, 3]" and type_list = "[''scalar'', ''image'']"
      and imdecode = "\<lambda>enc. Inl CodecError :: error + nat option" and e = CodecError
      and ev = "\<lparr>wall_time = 0 :: nat, step = 1, summary = None\<rparr>"]
  by (simp add: DECODERS_keys_def)

text \<open>
  Claim C9. For one value, the loop over the type selection gives at most one item (its
  result is one optional item): it is the result of the first decoder of the selection
  that returns something (every type before it returned nothing), the item's type names
  that decoder, its value is what the decoder returned, and its tag, step and wall time
  are those of the value and the event. Over the values of an event there is one yield
  per value, the \<open>j\<close>-th for the \<open>j\<close>-th value, so no value gives two items.
\<close>

theorem one_item_per_value:
  fixes v :: "'f summary_value" and imdecode :: "'i codec"
  shows "(try_decoders imdecode type_list ev v = Inr (Some item) \<longrightarrow>
       item_tag item = tag v \<and> item_step item = step ev
       \<and> item_wall_time item = wall_time ev
       \<and> (\<exists>pre post decoder. type_list = pre @ item_type item # post
             \<and> map_of (DECODERS imdecode) (item_type item) = Some decoder
             \<and> decoder v = Inr (Some (item_value item))
             \<and> list_all (\<lambda>t. \<exists>d. map_of (DECODERS imdecode) t = Some d \<and> d v = Inr None)
                   pre))
   \<and> length (fst (decode_values imdecode type_list ev vs)) \<le> length vs
   \<and> (snd (decode_values imdecode type_list ev vs) = None
        \<longrightarrow> length (fst (decode_values imdecode type_list ev vs)) = length vs)
   \<and> (\<forall>j < length (fst (decode_values imdecode type_list ev vs)).
         try_decoders imdecode type_list ev (vs ! j)
           = Inr (fst (decode_values imdecode type_list ev vs) ! j))"
  using try_decoders_Some [of imdecode type_list ev v item]
    decode_values_yields [of imdecode type_list ev vs]
  by blast

theorem one_item_per_value_witness:
  "try_decoders (\<lambda>enc. Inr (Some (9 :: nat))) [''image'', ''scalar'']
      \<lparr>wall_time = 0 :: nat, step = 1, summary = None\<rparr>
      \<lparr>tag = ''loss'', oneof = Simple_value 5\<rparr>
     = Inr (Some \<lparr>item_tag = ''loss'', item_step = 1, item_wall_time = 0,
          item_value = Scalar 5, item_type = ''scalar''\<rparr>)
   \<and> decode_values (\<lambda>enc. Inr (Some (9 :: nat))) [''image'', ''scalar'']
      \<lparr>wall_time = 0 :: nat, step = 1, summary = None\<rparr>
      [\<lparr>tag = ''loss'', oneof = Simple_value 5\<rparr>, \<lparr>tag = ''h'', oneof = Other_kind\<rparr>,
       \<lparr>tag = ''img'', oneof = Image [1]\<rparr>]
     = ([Some \<lparr>item_tag = ''loss'', item_step = 1, item_wall_time = 0,
           item_value = Scalar 5, item_type = ''scalar''\<rparr>,
         None,
         Some \<lparr>item_tag = ''img'', item_step = 1, item_wall_time = 0,
           item_value = Pixels 9, item_type = ''image''\<rparr>], None)"
  using one_item_per_value [where imdecode = "\<lambda>enc. Inr (Some (9 :: nat))"
      and type_list = "[''image'', ''scalar'']"
      and ev = "\<lparr>wall_time = 0 :: nat, step = 1, summary = None\<rparr>"
      and v = "\<lparr>tag = ''loss'', oneof = Simple_value 5\<rparr>"
      and item = "\<lparr>item_tag = ''loss'', item_step = 1, item_wall_time = 0,
          item_value = Scalar 5, item_type = ''scalar''\<rparr>"
      and vs = "[\<lparr>tag = ''loss'', oneof = Simple_value 5\<rparr>, \<lparr>tag = ''h'', oneof = Other_kind\<rparr>,
       \<lparr>tag = ''img'', oneof = Image [1]\<rparr>]"]
  by (simp add: map_of_DECODERS get_scalar_def get_image_def)

text \<open>
  Claim C7. For a directory whose entries have distinct names: the files processed are
  exactly the entries of the directory itself that are regular files (nothing below a
  subdirectory), in strictly ascending lexicographic order of their names. The output is
  the same for every enumeration order of the same entries, and for every directory that
  shows the same names and the same file contents, whatever the modification times and
  whatever the subdirectories hold. The items are the items of the first \<open>k\<close> files in
  that order, file after file, with \<open>k\<close> the number of all the files when the iteration
  ends without an exception.
\<close>

theorem multi_file_order:
  assumes "distinct (map fst entries)"
  shows "set (log_files entries) = {f \<in> set entries. is_file (snd f)}
    \<and> sorted (map fst (log_files entries)) \<and> distinct (map fst (log_files entries))
    \<and> (mset entries' = mset entries \<longrightarrow>
          SummaryReader_iter parse imdecode self entries'
            = SummaryReader_iter parse imdecode self entries)
    \<and> (map (\<lambda>f. (fst f, if is_file (snd f) then Some (file_content (snd f)) else None))
            entries'
          = map (\<lambda>f. (fst f, if is_file (snd f) then Some (file_content (snd f)) else None))
            entries \<longrightarrow>
          SummaryReader_iter parse imdecode self entries'
            = SummaryReader_iter parse imdecode self entries)
    \<and> (\<exists>k \<le> length (log_files entries).
          fst (SummaryReader_iter parse imdecode self entries)
            = concat (map (\<lambda>f. fst (file_items parse imdecode self (file_content (snd f))))
                (take k (log_files entries)))
          \<and> (snd (SummaryReader_iter parse imdecode self entries) = None
                \<longrightarrow> k = length (log_files entries)))"
proof -
  have a: "mset entries' = mset entries \<longrightarrow>
      SummaryReader_iter parse imdecode self entries'
        = SummaryReader_iter parse imdecode self entries"
    using log_files_permutation [of entries entries', OF _ assms]
    by (simp add: SummaryReader_iter_def)
  have b: "map (\<lambda>f. (fst f, if is_file (snd f) then Some (file_content (snd f)) else None))
        entries'
      = map (\<lambda>f. (fst f, if is_file (snd f) then Some (file_content (snd f)) else None))
        entries \<longrightarrow>
      SummaryReader_iter parse imdecode self entries'
        = SummaryReader_iter parse imdecode self entries"
    unfolding SummaryReader_iter_def
    by (intro impI iter_files_content log_files_visible)
  have c: "\<exists>k \<le> length (log_files entries).
      fst (SummaryReader_iter parse imdecode self entries)
        = concat (map (\<lambda>f. fst (file_items parse imdecode self (file_content (snd f))))
            (take k (log_files entries)))
      \<and> (snd (SummaryReader_iter parse imdecode self entries) = None
            \<longrightarrow> k = length (log_files entries))"
    unfolding SummaryReader_iter_def by (rule iter_files_concat)
  show ?thesis
    by (intro conjI set_log_files sorted_log_files distinct_log_files [OF assms] a b c)
qed

theorem multi_file_order_witness:
  "SummaryReader_iter
          (\<lambda>payload. Some \<lparr>wall_time = 0 :: nat, step = unpack_le payload,
             summary = Some [\<lparr>tag = ''loss'', oneof = Simple_value 5\<rparr>]\<rparr>)
          (\<lambda>enc. Inr (None :: nat option))
          \<lparr>logdir = ''logs'', tag_filter = None, type_filter = None\<rparr>
          [(''b'', File 5 (encode_record [2])),
           (''sub'', Directory [(''c'', File 0 (encode_record [3]))]),
           (''a'', File 9 (encode_record [1]))]
     = ([\<lparr>item_tag = ''loss'', item_step = 1, item_wall_time = 0,
            item_value = Scalar 5, item_type = ''scalar''\<rparr>,
          \<lparr>item_tag = ''loss'', item_step = 2, item_wall_time = 0,
            item_value = Scalar 5, item_type = ''scalar''\<rparr>], None)
   \<and> SummaryReader_iter
          (\<lambda>payload. Some \<lparr>wall_time = 0 :: nat, step = unpack_le payload,
             summary = Some [\<lparr>tag = ''loss'', oneof = Simple_value 5\<rparr>]\<rparr>)
          (\<lambda>enc. Inr (None :: nat option))
          \<lparr>logdir = ''logs'', tag_filter = None, type_filter = None\<rparr>
          [(''a'', File 9 (encode_record [1])),
           (''sub'', Directory [(''c'', File 0 (encode_record [3]))]),
           (''b'', File 5 (encode_record [2]))]
     = ([\<lparr>item_tag = ''loss'', item_step = 1, item_wall_time = 0,
            item_value = Scalar 5, item_type = ''scalar''\<rparr>,
          \<lparr>item_tag = ''loss'', item_step = 2, item_wall_time = 0,
            item_value = Scalar 5, item_type = ''scalar''\<rparr>], None)
   \<and> SummaryReader_iter
          (\<lambda>payload. Some \<lparr>wall_time = 0 :: nat, step = unpack_le payload,
             summary = Some [\<lparr>tag = ''loss'', oneof = Simple_value 5\<rparr>]\<rparr>)
          (\<lambda>enc. Inr (None :: nat option))
          \<lparr>logdir = ''logs'', tag_filter = None, type_filter = None\<rparr>
          [(''b'', File 0 (encode_record [2])),
           (''sub'', Directory []),
           (''a'', File 0 (encode_record [1]))]
     = ([\<lparr>item_tag = ''loss'', item_step = 1, item_wall_time = 0,
            item_value = Scalar 5, item_type = ''scalar''\<rparr>,
          \<lparr>item_tag = ''loss'', item_step = 2, item_wall_time = 0,
            item_value = Scalar 5, item_type = ''scalar''\<rparr>], None)"
proof -
  let ?P = "(\<lambda>payload. Some \<lparr>wall_time = 0 :: nat, step = unpack_le payload,
             summary = Some [\<lparr>tag = ''loss'', oneof = Simple_value 5\<rparr>]\<rparr>)"
  let ?C = "(\<lambda>enc. Inr (None :: nat option)) :: nat codec"
  have e: "EventsFileReader_iter ?P (open_rb (encode_record [n]))
      = ([\<lparr>wall_time = 0, step = uint n,
            summary = Some [\<lparr>tag = ''loss'', oneof = Simple_value 5\<rparr>]\<rparr>], None)" for n
    by (rule iter_single_record) simp_all
  have c: "SummaryReader_iter
          (\<lambda>payload. Some \<lparr>wall_time = 0 :: nat, step = unpack_le payload,
             summary = Some [\<lparr>tag = ''loss'', oneof = Simple_value 5\<rparr>]\<rparr>)
          (\<lambda>enc. Inr (None :: nat option))
          \<lparr>logdir = ''logs'', tag_filter = None, type_filter = None\<rparr>
          [(''b'', File 5 (encode_record [2])),
           (''sub'', Directory [(''c'', File 0 (encode_record [3]))]),
           (''a'', File 9 (encode_record [1]))]
     = ([\<lparr>item_tag = ''loss'', item_step = 1, item_wall_time = 0,
            item_value = Scalar 5, item_type = ''scalar''\<rparr>,
          \<lparr>item_tag = ''loss'', item_step = 2, item_wall_time = 0,
            item_value = Scalar 5, item_type = ''scalar''\<rparr>], None)"
    by (simp add: SummaryReader_iter_def log_files_def file_items_def e decode_events_def
        type_list_of_def DECODERS_keys_def map_of_DECODERS get_scalar_def check_tag_def
        check_type_def)
  show ?thesis
    using multi_file_order [where entries = "[(''b'', File 5 (encode_record [2])),
           (''sub'', Directory [(''c'', File 0 (encode_record [3]))]),
           (''a'', File 9 (encode_record [1]))]"
        and entries' = "[(''a'', File 9 (encode_record [1])),
           (''sub'', Directory [(''c'', File 0 (encode_record [3]))]),
           (''b'', File 5 (encode_record [2]))]"
        and parse = ?P and imdecode = ?C
        and self = "\<lparr>logdir = ''logs'', tag_filter = None, type_filter = None\<rparr>"]
      multi_file_order [where entries = "[(''b'', File 5 (encode_record [2])),
           (''sub'', Directory [(''c'', File 0 (encode_record [3]))]),
           (''a'', File 9 (encode_record [1]))]"
        and entries' = "[(''b'', File 0 (encode_record [2])),
           (''sub'', Directory []),
           (''a'', File 0 (encode_record [1]))]"
        and parse = ?P and imdecode = ?C
        and self = "\<lparr>logdir = ''logs'', tag_filter = None, type_filter = None\<rparr>"]
      c
    by simp
qed

end
